theory Spec2Isabelle
  imports Complex_Main "HOL-Library.Word" "HOL-Library.Sublist"
begin

section \<open>Strings of the source language\<close>

text \<open>
  A TypeScript string is a sequence of 16-bit code units. Every character the recovery
  code of \<^verbatim>\<open>src/services/geminiService.ts\<close> compares against is ASCII, but the input
  is arbitrary, so a text is a list of 16-bit words. \<open>js\<close> embeds an ASCII literal.
\<close>

type_synonym jschar = "16 word"
type_synonym jsstring = "jschar list"

definition js :: "string \<Rightarrow> jsstring" where
  "js s = map of_char s"

definition dquote :: jschar where "dquote = 0x22"
definition backslash :: jschar where "backslash = 0x5C"
definition lbrace :: jschar where "lbrace = 0x7B"
definition rbrace :: jschar where "rbrace = 0x7D"
definition lbracket :: jschar where "lbracket = 0x5B"
definition rbracket :: jschar where "rbracket = 0x5D"

text \<open>
  \<^verbatim>\<open>text.trim()\<close> removes the code units that ECMAScript calls WhiteSpace or
  LineTerminator from both ends.
\<close>

definition is_trim_space :: "jschar \<Rightarrow> bool" where
  "is_trim_space c \<longleftrightarrow>
     c = 0x09 \<or> c = 0x0A \<or> c = 0x0B \<or> c = 0x0C \<or> c = 0x0D \<or> c = 0x20 \<or> c = 0xA0 \<or>
     c = 0x1680 \<or> (0x2000 \<le> c \<and> c \<le> 0x200A) \<or> c = 0x2028 \<or> c = 0x2029 \<or>
     c = 0x202F \<or> c = 0x205F \<or> c = 0x3000 \<or> c = 0xFEFF"

definition trim :: "jsstring \<Rightarrow> jsstring" where
  "trim s = rev (dropWhile is_trim_space (rev (dropWhile is_trim_space s)))"

section \<open>The recovery steps of robustParseJSON\<close>

text \<open>
  Recovery step 1, lines 36 to 40:
  \<^verbatim>\<open>const quoteCount = (fixedText.match(/"/g) || []).length;
  if (quoteCount % 2 !== 0) { fixedText += '"'; }\<close>
\<close>

definition quoteCount :: "jsstring \<Rightarrow> nat" where
  "quoteCount t = length (filter (\<lambda>c. c = dquote) t)"

definition patchQuotes :: "jsstring \<Rightarrow> jsstring" where
  "patchQuotes t = (if quoteCount t mod 2 \<noteq> 0 then t @ [dquote] else t)"

text \<open>
  Recovery step 2, lines 42 to 64: the local variables of the scan. The array
  \<^verbatim>\<open>stack\<close> is a list in index order, so \<^verbatim>\<open>push\<close> appends at the end and
  \<^verbatim>\<open>pop\<close> removes the last element.
\<close>

record scan_state =
  stack :: jsstring
  inString :: bool
  escaped :: bool

definition scan_init :: scan_state where
  "scan_init = \<lparr>stack = [], inString = False, escaped = False\<rparr>"

text \<open>One iteration of the \<^verbatim>\<open>for\<close> loop, on the character \<open>c\<close>.\<close>

definition scan_step :: "scan_state \<Rightarrow> jschar \<Rightarrow> scan_state" where
  "scan_step s c =
     (let s1 = (if c = dquote \<and> \<not> escaped s then s\<lparr>inString := \<not> inString s\<rparr> else s)
      in if inString s1 then s1\<lparr>escaped := (c = backslash \<and> \<not> escaped s1)\<rparr>
         else if c = lbrace then s1\<lparr>stack := stack s1 @ [rbrace]\<rparr>
         else if c = lbracket then s1\<lparr>stack := stack s1 @ [rbracket]\<rparr>
         else if c = rbrace \<or> c = rbracket then
           (if length (stack s1) > 0 \<and> last (stack s1) = c
            then s1\<lparr>stack := butlast (stack s1)\<rparr> else s1)
         else s1)"

definition scan :: "jsstring \<Rightarrow> scan_state" where
  "scan t = foldl scan_step scan_init t"

text \<open>
  Lines 66 to 68: \<^verbatim>\<open>while (stack.length > 0) { fixedText += stack.pop(); }\<close>
\<close>

function closeAll :: "jsstring \<Rightarrow> jsstring \<Rightarrow> jsstring" where
  "closeAll stk fixedText =
     (if length stk > 0 then closeAll (butlast stk) (fixedText @ [last stk]) else fixedText)"
  by pat_completeness auto
termination
  by (relation "measure (\<lambda>(stk, fixedText). length stk)") auto

declare closeAll.simps [simp del]

text \<open>The text handed to the second \<^verbatim>\<open>JSON.parse\<close>, line 71.\<close>

definition fixedText :: "jsstring \<Rightarrow> jsstring" where
  "fixedText trimmed =
     (let patched = patchQuotes trimmed
      in closeAll (stack (scan patched)) patched)"

text \<open>
  The only exception that leaves the function is the \<^verbatim>\<open>Error\<close> of line 74.
\<close>

datatype error = Error string

definition MalformedOutput :: error where
  "MalformedOutput = Error
     ''AI response was malformed or truncated due to its length. Please try a more specific query or fewer URLs.''"

text \<open>
  \<^verbatim>\<open>robustParseJSON\<close> with the platform's \<^verbatim>\<open>JSON.parse\<close> as a parameter:
  \<open>None\<close> stands for the SyntaxError it throws, which both \<^verbatim>\<open>catch\<close> blocks
  swallow.
\<close>

definition robustParseJSON_with :: "(jsstring \<Rightarrow> 'v option) \<Rightarrow> jsstring \<Rightarrow> error + 'v" where
  "robustParseJSON_with parse text =
     (let trimmed = trim text
      in case parse trimmed of
           Some v \<Rightarrow> Inr v
         | None \<Rightarrow>
             (case parse (fixedText trimmed) of
                Some v \<Rightarrow> Inr v
              | None \<Rightarrow> Inl MalformedOutput))"

section \<open>The platform's JSON.parse\<close>

text \<open>
  \<^verbatim>\<open>JSON.parse\<close> belongs to the ECMAScript platform, not to the repository. The model
  below follows the JSON grammar of ECMA-404 and the way ECMA-262 builds the result:
  a lexer over code units, a parser over tokens, and the construction of the
  ECMAScript value.
\<close>

text \<open>
  A Number that \<^verbatim>\<open>JSON.parse\<close> can return is an IEEE 754 binary64 value other than
  NaN: a sign (\<open>True\<close> when negative) with a finite magnitude, which is zero or a
  representable rational, or with infinity.
\<close>

datatype number = Finite bool rat | Infinite bool

datatype json =
    JNull
  | JBool bool
  | JNumber number
  | JString jsstring
  | JArray "json list"
  | JObject "(jsstring \<times> json) list"

datatype token =
    TLBrace | TRBrace | TLBracket | TRBracket | TColon | TComma
  | TString jsstring | TNumber number | TTrue | TFalse | TNull

subsection \<open>Numbers and literals\<close>

definition is_digit :: "jschar \<Rightarrow> bool" where
  "is_digit c \<longleftrightarrow> 0x30 \<le> c \<and> c \<le> 0x39"

definition digits_val :: "jsstring \<Rightarrow> int" where
  "digits_val ds = foldl (\<lambda>a c. 10 * a + (uint c - 0x30)) 0 ds"

text \<open>An optional leading character out of \<open>cs\<close>: whether it was there, and the rest.\<close>

fun opt_char :: "jschar list \<Rightarrow> jsstring \<Rightarrow> bool \<times> jschar \<times> jsstring" where
  "opt_char cs [] = (False, 0, [])"
| "opt_char cs (c # r) = (if c \<in> set cs then (True, c, r) else (False, 0, c # r))"

text \<open>
  The Number value of a decimal literal: the binary64 value nearest to its exact value,
  a tie going to the even significand, and infinity beyond the largest finite value
  (ECMA-262 allows an engine to round a literal of more than 20 significant digits
  less exactly; the engines in use round exactly).
  \<open>bit_length n\<close> is the number of binary digits of a positive \<open>n\<close>, and
  \<open>floor_log2 n d\<close> the largest \<open>l\<close> with \<open>2 ^ l \<le> n / d\<close>.
\<close>

function bit_length :: "int \<Rightarrow> nat" where
  "bit_length n = (if n \<le> 0 then 0 else Suc (bit_length (n div 2)))"
  by pat_completeness auto
termination
  by (relation "measure nat") auto

declare bit_length.simps [simp del]

definition floor_log2 :: "int \<Rightarrow> int \<Rightarrow> int" where
  "floor_log2 n d =
     (let l = int (bit_length n) - int (bit_length d)
      in if (if 0 \<le> l then d * 2 ^ nat l \<le> n else d \<le> n * 2 ^ nat (- l)) then l else l - 1)"

definition round_half_even :: "int \<Rightarrow> int \<Rightarrow> int" where
  "round_half_even n d =
     (let q = n div d; r = n mod d
      in if 2 * r < d then q else if d < 2 * r then q + 1 else if even q then q else q + 1)"

text \<open>
  The magnitude \<open>n / d\<close> rounded to a significand of at most 53 bits times \<open>2 ^ e\<close>,
  with \<open>e\<close> no less than -1074 (the subnormal range); \<open>None\<close> is infinity.
\<close>

definition round_binary64 :: "int \<Rightarrow> int \<Rightarrow> rat option" where
  "round_binary64 n d =
     (if n = 0 then Some 0
      else
        (let e = max (floor_log2 n d - 52) (- 1074);
             m = (if 0 \<le> e then round_half_even n (d * 2 ^ nat e)
                  else round_half_even (n * 2 ^ nat (- e)) d)
         in if 971 < e \<or> (e = 971 \<and> 9007199254740992 \<le> m) then None
            else Some (if 0 \<le> e then of_int (m * 2 ^ nat e) else of_int m / 2 ^ nat (- e))))"

text \<open>The Number of the literal with sign \<open>neg\<close> and magnitude \<open>m * 10 ^ k\<close>.\<close>

definition decimal_number :: "bool \<Rightarrow> int \<Rightarrow> int \<Rightarrow> number" where
  "decimal_number neg m k =
     (case (if 0 \<le> k then round_binary64 (m * 10 ^ nat k) 1
            else round_binary64 m (10 ^ nat (- k))) of
        None \<Rightarrow> Infinite neg
      | Some q \<Rightarrow> Finite neg q)"

text \<open>
  \<^verbatim>\<open>-? (0 | [1-9][0-9]*) (. [0-9]+)? ([eE] [+-]? [0-9]+)?\<close>
\<close>

definition number_of :: "jsstring \<Rightarrow> number option" where
  "number_of s =
     (let (neg, _, s1) = opt_char [0x2D] s;
          ip = takeWhile is_digit s1; s2 = dropWhile is_digit s1;
          (dot, _, s3) = opt_char [0x2E] s2;
          fp = (if dot then takeWhile is_digit s3 else []);
          s4 = (if dot then dropWhile is_digit s3 else s3);
          (ex, _, s5) = opt_char [0x65, 0x45] s4;
          (sg, sc, s6) = (if ex then opt_char [0x2B, 0x2D] s5 else (False, 0, s5));
          ep = (if ex then takeWhile is_digit s6 else []);
          s7 = (if ex then dropWhile is_digit s6 else s6)
      in if ip = [] \<or> (length ip > 1 \<and> hd ip = 0x30) \<or> (dot \<and> fp = []) \<or> (ex \<and> ep = [])
            \<or> s7 \<noteq> []
         then None
         else Some (decimal_number neg (digits_val (ip @ fp))
                ((if sg \<and> sc = 0x2D then - digits_val ep else digits_val ep) - int (length fp))))"

definition atom_token :: "jsstring \<Rightarrow> token option" where
  "atom_token a =
     (if a = js ''true'' then Some TTrue
      else if a = js ''false'' then Some TFalse
      else if a = js ''null'' then Some TNull
      else map_option TNumber (number_of a))"

subsection \<open>The lexer\<close>

definition is_json_ws :: "jschar \<Rightarrow> bool" where
  "is_json_ws c \<longleftrightarrow> c = 0x20 \<or> c = 0x09 \<or> c = 0x0A \<or> c = 0x0D"

definition punct :: "jschar \<Rightarrow> token option" where
  "punct c =
     (if c = lbrace then Some TLBrace else if c = rbrace then Some TRBrace
      else if c = lbracket then Some TLBracket else if c = rbracket then Some TRBracket
      else if c = 0x3A then Some TColon else if c = 0x2C then Some TComma else None)"

definition hex_val :: "jschar \<Rightarrow> jschar option" where
  "hex_val c =
     (if 0x30 \<le> c \<and> c \<le> 0x39 then Some (c - 0x30)
      else if 0x41 \<le> c \<and> c \<le> 0x46 then Some (c - 0x37)
      else if 0x61 \<le> c \<and> c \<le> 0x66 then Some (c - 0x57)
      else None)"

text \<open>
  Where the lexer is: between tokens, inside a number or literal, inside a string,
  after a backslash in a string, or inside the four hexadecimal digits of \<open>\u\<close>
  (with the number of digits read and their value).
\<close>

datatype lex_mode =
    LTop
  | LAtom jsstring
  | LStr jsstring
  | LEsc jsstring
  | LUni jsstring nat jschar

definition lex_top :: "token list \<Rightarrow> jschar \<Rightarrow> (token list \<times> lex_mode) option" where
  "lex_top ts c =
     (if is_json_ws c then Some (ts, LTop)
      else if c = dquote then Some (ts, LStr [])
      else case punct c of
             Some t \<Rightarrow> Some (ts @ [t], LTop)
           | None \<Rightarrow> Some (ts, LAtom [c]))"

definition escape_char :: "jschar \<Rightarrow> jschar option" where
  "escape_char c =
     (if c = dquote \<or> c = backslash \<or> c = 0x2F then Some c
      else if c = 0x62 then Some 0x08
      else if c = 0x66 then Some 0x0C
      else if c = 0x6E then Some 0x0A
      else if c = 0x72 then Some 0x0D
      else if c = 0x74 then Some 0x09
      else None)"

fun lex_step :: "token list \<times> lex_mode \<Rightarrow> jschar \<Rightarrow> (token list \<times> lex_mode) option" where
  "lex_step (ts, LTop) c = lex_top ts c"
| "lex_step (ts, LAtom a) c =
     (if is_json_ws c \<or> c = dquote \<or> punct c \<noteq> None
      then (case atom_token a of None \<Rightarrow> None | Some t \<Rightarrow> lex_top (ts @ [t]) c)
      else Some (ts, LAtom (a @ [c])))"
| "lex_step (ts, LStr s) c =
     (if c = dquote then Some (ts @ [TString s], LTop)
      else if c = backslash then Some (ts, LEsc s)
      else if c < 0x20 then None
      else Some (ts, LStr (s @ [c])))"
| "lex_step (ts, LEsc s) c =
     (if c = 0x75 then Some (ts, LUni s 0 0)
      else case escape_char c of None \<Rightarrow> None | Some d \<Rightarrow> Some (ts, LStr (s @ [d])))"
| "lex_step (ts, LUni s n v) c =
     (case hex_val c of
        None \<Rightarrow> None
      | Some d \<Rightarrow>
          if n = 3 then Some (ts, LStr (s @ [16 * v + d]))
          else Some (ts, LUni s (Suc n) (16 * v + d)))"

fun lex_run :: "token list \<times> lex_mode \<Rightarrow> jsstring \<Rightarrow> (token list \<times> lex_mode) option" where
  "lex_run st [] = Some st"
| "lex_run st (c # cs) = (case lex_step st c of None \<Rightarrow> None | Some st' \<Rightarrow> lex_run st' cs)"

fun lex_end :: "token list \<times> lex_mode \<Rightarrow> token list option" where
  "lex_end (ts, LTop) = Some ts"
| "lex_end (ts, LAtom a) = map_option (\<lambda>t. ts @ [t]) (atom_token a)"
| "lex_end (ts, _) = None"

definition lex :: "jsstring \<Rightarrow> token list option" where
  "lex t = (case lex_run ([], LTop) t of None \<Rightarrow> None | Some st \<Rightarrow> lex_end st)"

subsection \<open>The parser\<close>

text \<open>
  A pushdown parser: the open containers, innermost first, and what may come next.
  An open object remembers the key whose value is being read.
\<close>

datatype frame =
    FArray "json list"
  | FObject "(jsstring \<times> json) list" "jsstring option"

datatype expect =
    EValue | EFirstElem | EFirstKey | EKey | EColon | EAfter | EDone json

type_synonym parser = "frame list \<times> expect"

text \<open>A complete value goes to the innermost open container, or is the result.\<close>

fun deliver :: "json \<Rightarrow> frame list \<Rightarrow> parser option" where
  "deliver v [] = Some ([], EDone v)"
| "deliver v (FArray es # fs) = Some (FArray (es @ [v]) # fs, EAfter)"
| "deliver v (FObject ms (Some k) # fs) = Some (FObject (ms @ [(k, v)]) None # fs, EAfter)"
| "deliver v (FObject ms None # fs) = None"

fun close_array :: "frame list \<Rightarrow> parser option" where
  "close_array (FArray es # fs) = deliver (JArray es) fs"
| "close_array _ = None"

fun close_object :: "frame list \<Rightarrow> parser option" where
  "close_object (FObject ms None # fs) = deliver (JObject ms) fs"
| "close_object _ = None"

fun start_value :: "frame list \<Rightarrow> token \<Rightarrow> parser option" where
  "start_value fs TLBrace = Some (FObject [] None # fs, EFirstKey)"
| "start_value fs TLBracket = Some (FArray [] # fs, EFirstElem)"
| "start_value fs (TString s) = deliver (JString s) fs"
| "start_value fs (TNumber r) = deliver (JNumber r) fs"
| "start_value fs TTrue = deliver (JBool True) fs"
| "start_value fs TFalse = deliver (JBool False) fs"
| "start_value fs TNull = deliver JNull fs"
| "start_value fs _ = None"

fun read_key :: "frame list \<Rightarrow> token \<Rightarrow> parser option" where
  "read_key (FObject ms None # fs) (TString k) = Some (FObject ms (Some k) # fs, EColon)"
| "read_key _ _ = None"

fun after_value :: "frame list \<Rightarrow> token \<Rightarrow> parser option" where
  "after_value (FArray es # fs) TComma = Some (FArray es # fs, EValue)"
| "after_value (FObject ms None # fs) TComma = Some (FObject ms None # fs, EKey)"
| "after_value fs TRBracket = close_array fs"
| "after_value fs TRBrace = close_object fs"
| "after_value _ _ = None"

fun parse_step :: "parser \<Rightarrow> token \<Rightarrow> parser option" where
  "parse_step (fs, EValue) t = start_value fs t"
| "parse_step (fs, EFirstElem) t = (if t = TRBracket then close_array fs else start_value fs t)"
| "parse_step (fs, EFirstKey) t = (if t = TRBrace then close_object fs else read_key fs t)"
| "parse_step (fs, EKey) t = read_key fs t"
| "parse_step (fs, EColon) t = (if t = TColon then Some (fs, EValue) else None)"
| "parse_step (fs, EAfter) t = after_value fs t"
| "parse_step (fs, EDone v) t = None"

fun parse_run :: "parser \<Rightarrow> token list \<Rightarrow> parser option" where
  "parse_run p [] = Some p"
| "parse_run p (t # ts) = (case parse_step p t of None \<Rightarrow> None | Some p' \<Rightarrow> parse_run p' ts)"

fun parse_end :: "parser \<Rightarrow> json option" where
  "parse_end (fs, EDone v) = Some v"
| "parse_end _ = None"

text \<open>The syntax tree of a JSON text: members and elements in the order of the text.\<close>

definition JSON_text :: "jsstring \<Rightarrow> json option" where
  "JSON_text t =
     (case lex t of
        None \<Rightarrow> None
      | Some ts \<Rightarrow> (case parse_run ([], EValue) ts of None \<Rightarrow> None | Some p \<Rightarrow> parse_end p))"

subsection \<open>The ECMAScript value\<close>

text \<open>
  An ECMAScript object lists its own property keys with the array indices first, in
  ascending order, then the other keys in the order of their creation. A member list
  of \<open>JObject\<close> in a value is in that order. \<^verbatim>\<open>JSON.parse\<close> defines the members in
  the order of the text; defining an existing key replaces its value in place.
\<close>

definition is_array_index :: "jsstring \<Rightarrow> bool" where
  "is_array_index k \<longleftrightarrow>
     k \<noteq> [] \<and> list_all is_digit k \<and> (if hd k = 0x30 then length k = 1 else True)
     \<and> length k \<le> 10
     \<and> digits_val k \<le> 4294967294"

fun insert_key :: "jsstring \<Rightarrow> json \<Rightarrow> (jsstring \<times> json) list \<Rightarrow> (jsstring \<times> json) list" where
  "insert_key k v [] = [(k, v)]"
| "insert_key k v ((k', v') # ms) =
     (if is_array_index k \<and> (\<not> is_array_index k' \<or> digits_val k < digits_val k')
      then (k, v) # (k', v') # ms
      else (k', v') # insert_key k v ms)"

fun replace_value :: "jsstring \<Rightarrow> json \<Rightarrow> (jsstring \<times> json) list \<Rightarrow> (jsstring \<times> json) list" where
  "replace_value k v [] = []"
| "replace_value k v ((k', v') # ms) =
     (if k' = k then (k', v) # ms else (k', v') # replace_value k v ms)"

definition define_property :: "(jsstring \<times> json) list \<Rightarrow> jsstring \<times> json \<Rightarrow> (jsstring \<times> json) list" where
  "define_property ms kv =
     (if fst kv \<in> set (map fst ms) then replace_value (fst kv) (snd kv) ms
      else insert_key (fst kv) (snd kv) ms)"

primrec js_value :: "json \<Rightarrow> json" where
  "js_value JNull = JNull"
| "js_value (JBool b) = JBool b"
| "js_value (JNumber r) = JNumber r"
| "js_value (JString s) = JString s"
| "js_value (JArray es) = JArray (map js_value es)"
| "js_value (JObject ms) = JObject (foldl define_property [] (map (map_prod id js_value) ms))"

definition JSON_parse :: "jsstring \<Rightarrow> json option" where
  "JSON_parse t = map_option js_value (JSON_text t)"

section \<open>robustParseJSON\<close>

definition robustParseJSON :: "jsstring \<Rightarrow> error + json" where
  "robustParseJSON = robustParseJSON_with JSON_parse"

section \<open>The scan and the lexer side by side\<close>

text \<open>
  The string flags of the scan that correspond to a place of the lexer: whether it is
  inside a string, and whether the last character was a backslash that escapes.
\<close>

fun lex_flags :: "lex_mode \<Rightarrow> bool \<times> bool" where
  "lex_flags LTop = (False, False)"
| "lex_flags (LAtom a) = (False, False)"
| "lex_flags (LStr s) = (True, False)"
| "lex_flags (LEsc s) = (True, True)"
| "lex_flags (LUni s n v) = (True, False)"

definition scan_flags :: "scan_state \<Rightarrow> bool \<times> bool" where
  "scan_flags s = (inString s, escaped s)"

section \<open>The order of keys and of tokens\<close>

text \<open>
  In the key order of an object, whatever precedes an array index is an array index that
  is not larger.
\<close>

definition index_first :: "jsstring \<Rightarrow> jsstring \<Rightarrow> bool" where
  "index_first a b \<longleftrightarrow> (if is_array_index b then is_array_index a \<and> digits_val a \<le> digits_val b else True)"

text \<open>
  The tokens of a syntax tree, in order: the elements of an array and the members of an
  object are written one after the other, separated by commas.
\<close>

fun commas :: "token list list \<Rightarrow> token list" where
  "commas [] = []"
| "commas [x] = x"
| "commas (x # y # r) = x @ TComma # commas (y # r)"

definition member_tokens :: "jsstring \<times> token list \<Rightarrow> token list" where
  "member_tokens m = TString (fst m) # TColon # snd m"

primrec tokens_of :: "json \<Rightarrow> token list" where
  "tokens_of JNull = [TNull]"
| "tokens_of (JBool b) = [if b then TTrue else TFalse]"
| "tokens_of (JNumber n) = [TNumber n]"
| "tokens_of (JString s) = [TString s]"
| "tokens_of (JArray es) = TLBracket # commas (map tokens_of es) @ [TRBracket]"
| "tokens_of (JObject ms) =
     TLBrace # commas (map member_tokens (map (map_prod id tokens_of) ms)) @ [TRBrace]"

text \<open>
  The tokens that lead to a state of the parser. \<open>items\<close> follows every element by a
  comma; \<open>pending\<close> are the tokens of open containers that wait for a value, outermost
  first. A state that the parser cannot reach has no such tokens.
\<close>

definition items :: "token list list \<Rightarrow> token list" where
  "items xs = concat (map (\<lambda>x. x @ [TComma]) xs)"

definition membs :: "(jsstring \<times> json) list \<Rightarrow> token list list" where
  "membs ms = map member_tokens (map (map_prod id tokens_of) ms)"

fun pending :: "frame list \<Rightarrow> token list option" where
  "pending [] = Some []"
| "pending (FArray es # fs) =
     map_option (\<lambda>p. p @ TLBracket # items (map tokens_of es)) (pending fs)"
| "pending (FObject ms (Some k) # fs) =
     map_option (\<lambda>p. p @ TLBrace # items (membs ms) @ [TString k, TColon]) (pending fs)"
| "pending (FObject ms None # fs) = None"

fun trace :: "parser \<Rightarrow> token list option" where
  "trace (fs, EValue) = pending fs"
| "trace (FArray es # fs, EFirstElem) =
     (if es = [] then map_option (\<lambda>p. p @ [TLBracket]) (pending fs) else None)"
| "trace (FObject ms None # fs, EFirstKey) =
     (if ms = [] then map_option (\<lambda>p. p @ [TLBrace]) (pending fs) else None)"
| "trace (FObject ms None # fs, EKey) =
     (if ms = [] then None else map_option (\<lambda>p. p @ TLBrace # items (membs ms)) (pending fs))"
| "trace (FObject ms (Some k) # fs, EColon) =
     map_option (\<lambda>p. p @ TLBrace # items (membs ms) @ [TString k]) (pending fs)"
| "trace (FArray es # fs, EAfter) =
     (if es = [] then None
      else map_option (\<lambda>p. p @ TLBracket # commas (map tokens_of es)) (pending fs))"
| "trace (FObject ms None # fs, EAfter) =
     (if ms = [] then None else map_option (\<lambda>p. p @ TLBrace # commas (membs ms)) (pending fs))"
| "trace ([], EDone v) = Some (tokens_of v)"
| "trace _ = None"

section \<open>Facts about the recovery steps\<close>

lemmas jschar_defs = dquote_def backslash_def lbrace_def rbrace_def lbracket_def rbracket_def

lemma closeAll_rev: "closeAll stk t = t @ rev stk"
proof (induction stk arbitrary: t rule: rev_induct)
  case Nil
  show ?case by (simp add: closeAll.simps)
next
  case (snoc x xs)
  have "closeAll (xs @ [x]) t = closeAll xs (t @ [x])"
    by (subst closeAll.simps) simp
  with snoc show ?case by simp
qed

lemma fixedText_append: "fixedText t = patchQuotes t @ rev (stack (scan (patchQuotes t)))"
  by (simp add: fixedText_def closeAll_rev Let_def)

lemma trim_all_space: "list_all is_trim_space t \<Longrightarrow> trim t = []"
proof -
  assume "list_all is_trim_space t"
  then have e: "dropWhile is_trim_space t = []"
    by (induction t) auto
  show ?thesis unfolding trim_def e by simp
qed

lemma trim_pad:
  assumes w1: "list_all is_trim_space w1" and w2: "list_all is_trim_space w2"
  shows "trim (w1 @ t @ w2) = trim t"
proof -
  have a: "dropWhile is_trim_space (w1 @ t @ w2) = dropWhile is_trim_space (t @ w2)"
    using w1 by (simp add: list_all_iff dropWhile_append2)
  show ?thesis
  proof (cases "list_all is_trim_space t")
    case True
    then have "list_all is_trim_space (w1 @ t @ w2)" using w1 w2 by simp
    then show ?thesis using True by (simp only: trim_all_space)
  next
    case False
    then obtain x where x: "x \<in> set t" "\<not> is_trim_space x"
      by (auto simp: list_all_iff)
    have b: "dropWhile is_trim_space (t @ w2) = dropWhile is_trim_space t @ w2"
      using x by (simp add: dropWhile_append1)
    have c: "dropWhile is_trim_space (rev w2 @ ys) = dropWhile is_trim_space ys" for ys
      using w2 by (intro dropWhile_append2) (simp add: list_all_iff)
    show ?thesis by (simp add: trim_def a b c)
  qed
qed

lemma robust_direct:
  "parse (trim text) = Some v \<Longrightarrow> robustParseJSON_with parse text = Inr v"
  by (simp add: robustParseJSON_with_def)

lemma quoteCount_append: "quoteCount (a @ b) = quoteCount a + quoteCount b"
  by (simp add: quoteCount_def)

lemma scan_step_stack_closers:
  "list_all (\<lambda>c. c = rbrace \<or> c = rbracket) (stack s) \<Longrightarrow>
   list_all (\<lambda>c. c = rbrace \<or> c = rbracket) (stack (scan_step s c))"
  by (auto simp: scan_step_def Let_def list_all_iff dest: in_set_butlastD)

lemma foldl_scan_stack_closers:
  "list_all (\<lambda>c. c = rbrace \<or> c = rbracket) (stack s) \<Longrightarrow>
   list_all (\<lambda>c. c = rbrace \<or> c = rbracket) (stack (foldl scan_step s t))"
  by (induction t arbitrary: s) (simp_all add: scan_step_stack_closers)

lemma scan_stack_closers: "list_all (\<lambda>c. c = rbrace \<or> c = rbracket) (stack (scan t))"
  unfolding scan_def by (rule foldl_scan_stack_closers) (simp add: scan_init_def)

lemma quoteCount_closers:
  "list_all (\<lambda>c. c = rbrace \<or> c = rbracket) cs \<Longrightarrow> quoteCount cs = 0"
  by (induction cs) (auto simp: quoteCount_def jschar_defs)

lemma patchQuotes_replicate: "patchQuotes t = t @ replicate (quoteCount t mod 2) dquote"
proof (cases "quoteCount t mod 2 = 0")
  case True
  then show ?thesis by (simp add: patchQuotes_def)
next
  case False
  then have "quoteCount t mod 2 = 1" by presburger
  then show ?thesis by (simp add: patchQuotes_def)
qed

lemma quoteCount_patchQuotes: "quoteCount (patchQuotes t) = quoteCount t + quoteCount t mod 2"
  by (simp add: patchQuotes_def quoteCount_append) (simp add: quoteCount_def)

lemma robust_fallback:
  "parse (trim text) = None \<Longrightarrow>
   robustParseJSON_with parse text =
     (case parse (fixedText (trim text)) of Some v \<Rightarrow> Inr v | None \<Rightarrow> Inl MalformedOutput)"
  by (simp add: robustParseJSON_with_def)

lemma JSON_parse_empty: "JSON_parse [] = None"
  by code_simp

lemma fixedText_empty: "fixedText [] = []"
  by code_simp

lemma scan_empty: "stack (scan (patchQuotes [])) = []"
  by code_simp

section \<open>Facts about the scan and the lexer\<close>

lemma scan_flags_step:
  "scan_flags (scan_step s c) =
     (if c = dquote \<and> \<not> escaped s then (\<not> inString s, False)
      else if inString s then (True, c = backslash \<and> \<not> escaped s)
      else (False, escaped s))"
  by (simp add: scan_step_def scan_flags_def Let_def jschar_defs)

lemma json_ws_not_dquote: "is_json_ws c \<Longrightarrow> c \<noteq> dquote"
  by (auto simp: is_json_ws_def dquote_def)

lemma hex_val_not_special:
  "hex_val c = Some d \<Longrightarrow> c \<noteq> dquote \<and> c \<noteq> backslash"
  by (auto simp: hex_val_def jschar_defs split: if_splits)

lemma lex_top_mode:
  "lex_top ts c = Some (ts', m') \<Longrightarrow> lex_flags m' = (c = dquote, False)"
  by (auto simp: lex_top_def split: if_splits option.splits dest: json_ws_not_dquote)

lemma lex_step_mode:
  "lex_step (ts, m) c = Some (ts', m') \<Longrightarrow>
   lex_flags m' =
     (if c = dquote \<and> \<not> snd (lex_flags m) then (\<not> fst (lex_flags m), False)
      else if fst (lex_flags m) then (True, c = backslash \<and> \<not> snd (lex_flags m))
      else (False, snd (lex_flags m)))"
proof (cases m)
  case LTop
  then show "lex_step (ts, m) c = Some (ts', m') \<Longrightarrow> ?thesis"
    by (simp add: lex_top_mode)
next
  case (LAtom a)
  then show "lex_step (ts, m) c = Some (ts', m') \<Longrightarrow> ?thesis"
    by (auto split: if_splits option.splits dest: lex_top_mode)
next
  case (LStr str)
  then show "lex_step (ts, m) c = Some (ts', m') \<Longrightarrow> ?thesis"
    by (auto simp: jschar_defs split: if_splits)
next
  case (LEsc str)
  then show "lex_step (ts, m) c = Some (ts', m') \<Longrightarrow> ?thesis"
    by (auto split: if_splits option.splits)
next
  case (LUni str n v)
  then show "lex_step (ts, m) c = Some (ts', m') \<Longrightarrow> ?thesis"
    by (auto split: if_splits option.splits dest: hex_val_not_special)
qed

lemma lex_step_flags:
  assumes "lex_step (ts, m) c = Some (ts', m')" and "scan_flags s = lex_flags m"
  shows "scan_flags (scan_step s c) = lex_flags m'"
proof -
  from assms(2) have "fst (scan_flags s) = fst (lex_flags m)"
    and "snd (scan_flags s) = snd (lex_flags m)"
    by simp_all
  then have f: "inString s = fst (lex_flags m)" "escaped s = snd (lex_flags m)"
    by (simp_all add: scan_flags_def)
  show ?thesis
    unfolding scan_flags_step lex_step_mode [OF assms(1)] f ..
qed

lemma lex_run_flags:
  "lex_run (ts, m) t = Some (ts', m') \<Longrightarrow> scan_flags s = lex_flags m \<Longrightarrow>
   scan_flags (foldl scan_step s t) = lex_flags m'"
proof (induction t arbitrary: ts m s)
  case Nil
  then show ?case by simp
next
  case (Cons c t)
  from Cons.prems(1) obtain ts1 m1 where
    st: "lex_step (ts, m) c = Some (ts1, m1)" and run: "lex_run (ts1, m1) t = Some (ts', m')"
    by (auto split: option.splits)
  have "scan_flags (scan_step s c) = lex_flags m1"
    using st Cons.prems(2) by (rule lex_step_flags)
  with run have "scan_flags (foldl scan_step (scan_step s c) t) = lex_flags m'"
    by (rule Cons.IH)
  then show ?case by simp
qed

lemma lex_end_flags: "lex_end (ts, m) = Some r \<Longrightarrow> lex_flags m = (False, False)"
  by (cases m) auto

lemma lex_closed_strings: "lex t = Some ts \<Longrightarrow> \<not> inString (scan t)"
proof -
  assume "lex t = Some ts"
  then obtain ts' m' where run: "lex_run ([], LTop) t = Some (ts', m')"
    and fin: "lex_end (ts', m') = Some ts"
    by (auto simp: lex_def split: option.splits)
  have "scan_flags scan_init = lex_flags LTop"
    by (simp add: scan_flags_def scan_init_def)
  with run have "scan_flags (scan t) = lex_flags m'"
    unfolding scan_def by (rule lex_run_flags)
  with lex_end_flags [OF fin] show ?thesis by (simp add: scan_flags_def)
qed

lemma inString_parse_fails: "inString (scan t) \<Longrightarrow> JSON_parse t = None"
proof -
  assume a: "inString (scan t)"
  have "lex t = None"
  proof (cases "lex t")
    case None
    then show ?thesis .
  next
    case (Some ts)
    then have "\<not> inString (scan t)" by (rule lex_closed_strings)
    with a show ?thesis by simp
  qed
  then show ?thesis by (simp add: JSON_parse_def JSON_text_def)
qed

lemma scan_append: "scan (a @ b) = foldl scan_step (scan a) b"
  by (simp add: scan_def)

lemma closer_keeps_inString:
  "inString s \<Longrightarrow> c = rbrace \<or> c = rbracket \<Longrightarrow> inString (scan_step s c)"
  by (auto simp: scan_step_def jschar_defs Let_def)

lemma closers_keep_inString:
  "inString s \<Longrightarrow> list_all (\<lambda>c. c = rbrace \<or> c = rbracket) cs \<Longrightarrow>
   inString (foldl scan_step s cs)"
  by (induction cs arbitrary: s) (simp_all add: closer_keeps_inString)

section \<open>Facts about the ECMAScript value\<close>

lemma insert_key_plain: "\<not> is_array_index k \<Longrightarrow> insert_key k v ms = ms @ [(k, v)]"
  by (induction ms) auto

lemma define_property_plain:
  "\<not> is_array_index k \<Longrightarrow> k \<notin> set (map fst ms) \<Longrightarrow> define_property ms (k, v) = ms @ [(k, v)]"
  by (simp add: define_property_def insert_key_plain)

lemma define_all_plain:
  "distinct (map fst ms) \<Longrightarrow> \<not> list_ex is_array_index (map fst ms) \<Longrightarrow>
   set (map fst ms) \<inter> set (map fst acc) = {} \<Longrightarrow>
   foldl define_property acc ms = acc @ ms"
proof (induction ms arbitrary: acc)
  case Nil
  then show ?case by simp
next
  case (Cons m ms)
  obtain k v where m: "m = (k, v)" by (cases m)
  from Cons.prems m have step: "define_property acc m = acc @ [(k, v)]"
    by (simp add: define_property_plain)
  from Cons.prems m have "foldl define_property (acc @ [(k, v)]) ms = (acc @ [(k, v)]) @ ms"
    by (intro Cons.IH) auto
  with step m show ?case by simp
qed

lemma define_property_old:
  "k \<in> fst ` set acc \<Longrightarrow> define_property acc (k, v) = replace_value k v acc"
  by (simp add: define_property_def)

lemma define_property_new:
  "k \<notin> fst ` set acc \<Longrightarrow> define_property acc (k, v) = insert_key k v acc"
  by (simp add: define_property_def)

lemma replace_value_keys: "map fst (replace_value k v acc) = map fst acc"
  by (induction acc) auto

lemma replace_value_map_of:
  "k \<in> fst ` set acc \<Longrightarrow> map_of (replace_value k v acc) = (map_of acc)(k \<mapsto> v)"
proof (induction acc)
  case Nil
  then show ?case by simp
next
  case (Cons m acc)
  obtain k' v' where m: "m = (k', v')" by (cases m)
  show ?case
  proof (cases "k' = k")
    case True
    with m show ?thesis by (auto simp: fun_eq_iff)
  next
    case False
    with Cons.prems m have "k \<in> fst ` set acc" by auto
    then have "map_of (replace_value k v acc) = (map_of acc)(k \<mapsto> v)" by (rule Cons.IH)
    with False m show ?thesis by (auto simp: fun_eq_iff)
  qed
qed

lemma insert_key_set: "set (insert_key k v acc) = insert (k, v) (set acc)"
  by (induction acc) (auto split: if_splits)

lemma insert_key_keys: "fst ` set (insert_key k v acc) = insert k (fst ` set acc)"
  by (simp add: insert_key_set)

lemma insert_key_distinct:
  "k \<notin> fst ` set acc \<Longrightarrow> distinct (map fst acc) \<Longrightarrow> distinct (map fst (insert_key k v acc))"
proof (induction acc)
  case Nil
  then show ?case by simp
next
  case (Cons m acc)
  obtain k' v' where m: "m = (k', v')" by (cases m)
  from Cons.prems m have a: "k \<noteq> k'" "k \<notin> fst ` set acc" "k' \<notin> fst ` set acc"
    "distinct (map fst acc)"
    by auto
  from a have ih: "distinct (map fst (insert_key k v acc))" by (intro Cons.IH)
  from a have "k' \<notin> fst ` set (insert_key k v acc)"
    by (simp add: insert_key_keys)
  with a ih m show ?case by simp
qed

lemma insert_key_map_of:
  "k \<notin> fst ` set acc \<Longrightarrow> map_of (insert_key k v acc) = (map_of acc)(k \<mapsto> v)"
proof (induction acc)
  case Nil
  then show ?case by simp
next
  case (Cons m acc)
  obtain k' v' where m: "m = (k', v')" by (cases m)
  from Cons.prems m have a: "k \<noteq> k'" "k \<notin> fst ` set acc" by auto
  from a(2) have "map_of (insert_key k v acc) = (map_of acc)(k \<mapsto> v)" by (rule Cons.IH)
  with a m show ?case by (auto simp: fun_eq_iff)
qed

lemma insert_key_others:
  "filter (\<lambda>a. \<not> is_array_index a) (map fst (insert_key k v acc)) =
   filter (\<lambda>a. \<not> is_array_index a) (map fst acc) @ (if is_array_index k then [] else [k])"
  by (induction acc) auto

lemma insert_key_index_first:
  "sorted_wrt index_first (map fst acc) \<Longrightarrow> sorted_wrt index_first (map fst (insert_key k v acc))"
proof (induction acc)
  case Nil
  then show ?case by simp
next
  case (Cons m acc)
  obtain k' v' where m: "m = (k', v')" by (cases m)
  from Cons.prems m have tail: "\<And>y. y \<in> fst ` set acc \<Longrightarrow> index_first k' y"
    and rest: "sorted_wrt index_first (map fst acc)"
    by auto
  show ?case
  proof (cases "is_array_index k \<and> (\<not> is_array_index k' \<or> digits_val k < digits_val k')")
    case True
    have kk': "index_first k k'"
      using True by (auto simp: index_first_def)
    have "index_first k y" if "y \<in> fst ` set acc" for y
      using True tail [OF that] by (auto simp: index_first_def split: if_splits)
    then have "\<forall>y\<in>set (map fst ((k', v') # acc)). index_first k y"
      using kk' by auto
    moreover have "sorted_wrt index_first (map fst ((k', v') # acc))"
      using Cons.prems m by simp
    moreover have "insert_key k v (m # acc) = (k, v) # (k', v') # acc"
      using True m by simp
    ultimately show ?thesis
      by (simp only: list.map fst_conv sorted_wrt.simps) simp
  next
    case False
    then have k'k: "index_first k' k"
      by (auto simp: index_first_def)
    have "index_first k' y" if "y \<in> fst ` set (insert_key k v acc)" for y
      using that k'k tail by (auto simp: insert_key_keys)
    then have "\<forall>y\<in>set (map fst (insert_key k v acc)). index_first k' y"
      by auto
    moreover have "sorted_wrt index_first (map fst (insert_key k v acc))"
      using rest by (rule Cons.IH)
    moreover have "insert_key k v (m # acc) = (k', v') # insert_key k v acc"
      by (simp only: m insert_key.simps False if_False)
    ultimately show ?thesis
      by (simp only: list.map fst_conv sorted_wrt.simps)
  qed
qed

lemma define_all_snoc:
  "foldl define_property [] (ms @ [(k, v)]) =
     (if k \<in> fst ` set (foldl define_property [] ms)
      then replace_value k v (foldl define_property [] ms)
      else insert_key k v (foldl define_property [] ms))"
  by (simp add: define_property_old define_property_new)

lemma define_all_keys: "fst ` set (foldl define_property [] ms) = fst ` set ms"
proof (induction ms rule: rev_induct)
  case Nil
  show ?case by simp
next
  case (snoc m ms)
  obtain k v where m: "m = (k, v)" by (cases m)
  have "fst ` set (replace_value k v acc) = fst ` set acc" for acc
    using replace_value_keys [of k v acc] by (metis set_map)
  with snoc show ?case
    unfolding m define_all_snoc by (auto simp: insert_key_keys)
qed

lemma define_all_distinct: "distinct (map fst (foldl define_property [] ms))"
proof (induction ms rule: rev_induct)
  case Nil
  show ?case by simp
next
  case (snoc m ms)
  obtain k v where m: "m = (k, v)" by (cases m)
  from snoc show ?case
    unfolding m define_all_snoc by (simp add: replace_value_keys insert_key_distinct)
qed

lemma define_all_map_of: "map_of (foldl define_property [] ms) = map_of (rev ms)"
proof (induction ms rule: rev_induct)
  case Nil
  show ?case by simp
next
  case (snoc m ms)
  obtain k v where m: "m = (k, v)" by (cases m)
  from snoc show ?case
    unfolding m define_all_snoc by (simp add: replace_value_map_of insert_key_map_of)
qed

lemma define_all_index_first: "sorted_wrt index_first (map fst (foldl define_property [] ms))"
proof (induction ms rule: rev_induct)
  case Nil
  show ?case by simp
next
  case (snoc m ms)
  obtain k v where m: "m = (k, v)" by (cases m)
  from snoc show ?case
    unfolding m define_all_snoc by (simp add: replace_value_keys insert_key_index_first)
qed

lemma define_all_others:
  "filter (\<lambda>a. \<not> is_array_index a) (map fst (foldl define_property [] ms)) =
   rev (remdups (rev (filter (\<lambda>a. \<not> is_array_index a) (map fst ms))))"
proof (induction ms rule: rev_induct)
  case Nil
  show ?case by simp
next
  case (snoc m ms)
  obtain k v where m: "m = (k, v)" by (cases m)
  from snoc show ?case
    unfolding m define_all_snoc define_all_keys
    by (auto simp: replace_value_keys insert_key_others)
qed

lemma map_prod_keys: "map fst (map (map_prod id f) ms) = map fst ms"
  by (induction ms) auto

lemma map_prod_map_of_aux: "map_of (map (map_prod id f) xs) k = map_option f (map_of xs k)"
  by (induction xs) auto

lemma map_prod_map_of: "map_of (rev (map (map_prod id f) ms)) k = map_option f (map_of (rev ms) k)"
  by (simp only: rev_map map_prod_map_of_aux)

section \<open>Facts about the parser\<close>

lemma items_snoc: "items (xs @ [x]) = items xs @ x @ [TComma]"
  by (simp add: items_def)

lemma commas_snoc: "commas (xs @ [x]) = items xs @ x"
  by (induction xs rule: commas.induct) (simp_all add: items_def)

lemma items_commas: "xs \<noteq> [] \<Longrightarrow> commas xs @ [TComma] = items xs"
  by (induction xs rule: commas.induct) (simp_all add: items_def)

lemma membs_snoc: "membs (ms @ [(k, v)]) = membs ms @ [TString k # TColon # tokens_of v]"
  by (simp add: membs_def member_tokens_def)

lemma tokens_of_object: "tokens_of (JObject ms) = TLBrace # commas (membs ms) @ [TRBrace]"
  by (simp add: membs_def)

lemma deliver_trace:
  assumes "pending fs = Some pre" and "deliver v fs = Some p"
  shows "trace p = Some (pre @ tokens_of v)"
proof (cases fs)
  case Nil
  with assms show ?thesis by auto
next
  case (Cons f fs')
  show ?thesis
  proof (cases f)
    case (FArray es)
    with assms Cons show ?thesis
      by (auto simp: commas_snoc)
  next
    case (FObject ms ko)
    with assms Cons show ?thesis
      by (cases ko) (auto simp: commas_snoc membs_snoc)
  qed
qed

lemma start_value_trace:
  assumes "pending fs = Some pre" and "start_value fs t = Some p"
  shows "trace p = Some (pre @ [t])"
proof (cases t)
  case TLBrace
  with assms show ?thesis by auto
next
  case TLBracket
  with assms show ?thesis by auto
next
  case (TString s)
  with assms deliver_trace [OF assms(1), of "JString s" p] show ?thesis by simp
next
  case (TNumber n)
  with assms deliver_trace [OF assms(1), of "JNumber n" p] show ?thesis by simp
next
  case TTrue
  with assms deliver_trace [OF assms(1), of "JBool True" p] show ?thesis by simp
next
  case TFalse
  with assms deliver_trace [OF assms(1), of "JBool False" p] show ?thesis by simp
next
  case TNull
  with assms deliver_trace [OF assms(1), of JNull p] show ?thesis by simp
qed (use assms in simp_all)

lemma close_array_trace:
  assumes "pending fs = Some pre" and "close_array (FArray es # fs) = Some p"
  shows "trace p = Some (pre @ TLBracket # commas (map tokens_of es) @ [TRBracket])"
  using deliver_trace [OF assms(1), of "JArray es" p] assms(2) by simp

lemma close_object_trace:
  assumes "pending fs = Some pre" and "close_object (FObject ms None # fs) = Some p"
  shows "trace p = Some (pre @ TLBrace # commas (membs ms) @ [TRBrace])"
  using deliver_trace [OF assms(1), of "JObject ms" p] assms(2)
  by (simp add: tokens_of_object del: tokens_of.simps)

lemma parse_step_trace:
  assumes "trace p = Some ts" and "parse_step p t = Some p'"
  shows "trace p' = Some (ts @ [t])"
proof -
  obtain fs e where p: "p = (fs, e)" by (cases p)
  show ?thesis
  proof (cases e)
    case EValue
    with assms p show ?thesis by (simp add: start_value_trace)
  next
    case EFirstElem
    with assms p obtain fs' pre where fs: "fs = FArray [] # fs'" and pre: "pending fs' = Some pre"
      and ts: "ts = pre @ [TLBracket]"
      by (cases fs rule: pending.cases) (auto split: if_splits)
    show ?thesis
    proof (cases "t = TRBracket")
      case True
      with assms p EFirstElem fs have "close_array (FArray [] # fs') = Some p'" by simp
      from close_array_trace [OF pre this] True ts show ?thesis by simp
    next
      case False
      with assms p EFirstElem have sv: "start_value fs t = Some p'" by simp
      have "pending fs = Some (pre @ [TLBracket])"
        using fs pre by (simp add: items_def)
      from start_value_trace [OF this sv] ts show ?thesis by simp
    qed
  next
    case EFirstKey
    with assms p obtain fs' pre where fs: "fs = FObject [] None # fs'" and pre: "pending fs' = Some pre"
      and ts: "ts = pre @ [TLBrace]"
      by (cases fs rule: pending.cases) (auto split: if_splits)
    show ?thesis
    proof (cases "t = TRBrace")
      case True
      with assms p EFirstKey fs have "close_object (FObject [] None # fs') = Some p'" by simp
      from close_object_trace [OF pre this] True ts show ?thesis by (simp add: membs_def)
    next
      case False
      with assms p EFirstKey fs have rk: "read_key (FObject [] None # fs') t = Some p'" by simp
      then obtain k where "t = TString k" "p' = (FObject [] (Some k) # fs', EColon)"
        by (cases t) auto
      with pre ts show ?thesis by (simp add: membs_def items_def)
    qed
  next
    case EKey
    with assms p obtain ms fs' pre where fs: "fs = FObject ms None # fs'" and ne: "ms \<noteq> []"
      and pre: "pending fs' = Some pre" and ts: "ts = pre @ TLBrace # items (membs ms)"
      by (cases fs rule: pending.cases) (auto split: if_splits)
    from assms p EKey fs have "read_key (FObject ms None # fs') t = Some p'" by simp
    then obtain k where "t = TString k" "p' = (FObject ms (Some k) # fs', EColon)"
      by (cases t) auto
    with pre ts show ?thesis by simp
  next
    case EColon
    with assms p obtain ms k fs' pre where fs: "fs = FObject ms (Some k) # fs'"
      and pre: "pending fs' = Some pre" and ts: "ts = pre @ TLBrace # items (membs ms) @ [TString k]"
      by (cases fs rule: pending.cases) (auto split: if_splits)
    from assms p EColon have "t = TColon" "p' = (fs, EValue)"
      by (auto split: if_splits)
    with fs pre ts show ?thesis by simp
  next
    case EAfter
    show ?thesis
    proof (cases fs rule: pending.cases)
      case 1
      with assms p EAfter show ?thesis by simp
    next
      case (2 es fs')
      with assms p EAfter obtain pre where ne: "es \<noteq> []" and pre: "pending fs' = Some pre"
        and ts: "ts = pre @ TLBracket # commas (map tokens_of es)"
        by (auto split: if_splits)
      from assms p EAfter 2 have av: "after_value (FArray es # fs') t = Some p'" by simp
      show ?thesis
      proof (cases t)
        case TComma
        with av have "p' = (FArray es # fs', EValue)" by simp
        with pre ts ne TComma items_commas [of "map tokens_of es"] show ?thesis by simp
      next
        case TRBracket
        with av have "close_array (FArray es # fs') = Some p'" by simp
        from close_array_trace [OF pre this] TRBracket ts show ?thesis by simp
      qed (use av in simp_all)
    next
      case (3 ms k fs')
      with assms p EAfter show ?thesis by simp
    next
      case (4 ms fs')
      with assms p EAfter obtain pre where ne: "ms \<noteq> []" and pre: "pending fs' = Some pre"
        and ts: "ts = pre @ TLBrace # commas (membs ms)"
        by (auto split: if_splits)
      from assms p EAfter 4 have av: "after_value (FObject ms None # fs') t = Some p'" by simp
      show ?thesis
      proof (cases t)
        case TComma
        with av have "p' = (FObject ms None # fs', EKey)" by simp
        moreover have "membs ms \<noteq> []" using ne by (simp add: membs_def)
        ultimately show ?thesis
          using pre ts ne TComma items_commas [of "membs ms"] by simp
      next
        case TRBrace
        with av have "close_object (FObject ms None # fs') = Some p'" by simp
        from close_object_trace [OF pre this] TRBrace ts show ?thesis by simp
      qed (use av in simp_all)
    qed
  next
    case (EDone v)
    with assms p show ?thesis by simp
  qed
qed

lemma parse_run_trace:
  "trace p = Some ts \<Longrightarrow> parse_run p toks = Some p' \<Longrightarrow> trace p' = Some (ts @ toks)"
proof (induction toks arbitrary: p ts)
  case Nil
  then show ?case by simp
next
  case (Cons t toks)
  from Cons.prems(2) obtain p1 where st: "parse_step p t = Some p1"
    and run: "parse_run p1 toks = Some p'"
    by (auto split: option.splits)
  from parse_step_trace [OF Cons.prems(1) st] have "trace p1 = Some (ts @ [t])" .
  from Cons.IH [OF this run] show ?case by simp
qed

lemma parse_end_trace: "trace p = Some ts \<Longrightarrow> parse_end p = Some v \<Longrightarrow> ts = tokens_of v"
  by (cases p rule: trace.cases) (auto split: if_splits)

lemma JSON_text_tokens: "JSON_text t = Some tree \<Longrightarrow> lex t = Some (tokens_of tree)"
proof -
  assume "JSON_text t = Some tree"
  then obtain toks p where l: "lex t = Some toks"
    and run: "parse_run ([], EValue) toks = Some p" and fin: "parse_end p = Some tree"
    by (auto simp: JSON_text_def split: option.splits)
  have "trace ([], EValue) = Some []" by simp
  from parse_run_trace [OF this run] have "trace p = Some toks" by simp
  from parse_end_trace [OF this fin] l show ?thesis by simp
qed

section \<open>Facts about the result\<close>

lemma fixedText_suffix:
  "\<exists>suffix. fixedText t = t @ suffix \<and> list_all (\<lambda>c. c = dquote \<or> c = rbrace \<or> c = rbracket) suffix"
proof -
  let ?cl = "rev (stack (scan (patchQuotes t)))"
  have "fixedText t = t @ (replicate (quoteCount t mod 2) dquote @ ?cl)"
    by (simp add: fixedText_append patchQuotes_replicate)
  moreover have "list_all (\<lambda>c. c = dquote \<or> c = rbrace \<or> c = rbracket)
      (replicate (quoteCount t mod 2) dquote @ ?cl)"
    using scan_stack_closers [of "patchQuotes t"] by (auto simp: list_all_iff)
  ultimately show ?thesis by blast
qed

lemma robust_result_tree:
  assumes "robustParseJSON text = Inr v"
  shows "\<exists>tree.
      (JSON_text (trim text) = Some tree \<or>
       (JSON_parse (trim text) = None \<and> JSON_text (fixedText (trim text)) = Some tree)) \<and>
      v = js_value tree"
proof (cases "JSON_text (trim text)")
  case (Some tree)
  then have "JSON_parse (trim text) = Some (js_value tree)"
    by (simp add: JSON_parse_def)
  then have "robustParseJSON text = Inr (js_value tree)"
    by (simp add: robustParseJSON_def robustParseJSON_with_def)
  with assms Some show ?thesis by auto
next
  case None
  then have d: "JSON_parse (trim text) = None"
    by (simp add: JSON_parse_def)
  show ?thesis
  proof (cases "JSON_text (fixedText (trim text))")
    case None
    then have "JSON_parse (fixedText (trim text)) = None"
      by (simp add: JSON_parse_def)
    with d have "robustParseJSON text = Inl MalformedOutput"
      by (simp add: robustParseJSON_def robustParseJSON_with_def)
    with assms show ?thesis by simp
  next
    case (Some tree)
    then have "JSON_parse (fixedText (trim text)) = Some (js_value tree)"
      by (simp add: JSON_parse_def)
    with d have "robustParseJSON text = Inr (js_value tree)"
      by (simp add: robustParseJSON_def robustParseJSON_with_def)
    with assms Some d show ?thesis by auto
  qed
qed

lemma robust_result_tokens:
  assumes "robustParseJSON text = Inr v"
  shows "\<exists>suffix tree.
      list_all (\<lambda>c. c = dquote \<or> c = rbrace \<or> c = rbracket) suffix \<and>
      (suffix = [] \<or> (JSON_parse (trim text) = None \<and> trim text @ suffix = fixedText (trim text))) \<and>
      lex (trim text @ suffix) = Some (tokens_of tree) \<and> v = js_value tree"
proof -
  from robust_result_tree [OF assms] obtain tree where
    t: "JSON_text (trim text) = Some tree \<or>
       (JSON_parse (trim text) = None \<and> JSON_text (fixedText (trim text)) = Some tree)"
    and v: "v = js_value tree"
    by blast
  from t show ?thesis
  proof
    assume "JSON_text (trim text) = Some tree"
    then have "lex (trim text @ []) = Some (tokens_of tree)"
      by (simp add: JSON_text_tokens)
    with v show ?thesis by (intro exI [of _ "[]"] exI [of _ tree]) simp
  next
    assume a: "JSON_parse (trim text) = None \<and> JSON_text (fixedText (trim text)) = Some tree"
    from fixedText_suffix [of "trim text"] obtain suffix where
      s: "fixedText (trim text) = trim text @ suffix"
      "list_all (\<lambda>c. c = dquote \<or> c = rbrace \<or> c = rbracket) suffix"
      by blast
    from a have "lex (fixedText (trim text)) = Some (tokens_of tree)"
      by (simp add: JSON_text_tokens)
    with a s v show ?thesis by (intro exI [of _ suffix] exI [of _ tree]) simp
  qed
qed

lemma js_value_object:
  "\<exists>R. js_value (JObject ms) = JObject R \<and>
     distinct (map fst R) \<and> set (map fst R) = set (map fst ms) \<and>
     (\<forall>k. map_of R k = map_option js_value (map_of (rev ms) k)) \<and>
     sorted_wrt index_first (map fst R) \<and>
     filter (\<lambda>a. \<not> is_array_index a) (map fst R) =
       rev (remdups (rev (filter (\<lambda>a. \<not> is_array_index a) (map fst ms)))) \<and>
     (distinct (map fst ms) \<and> \<not> list_ex is_array_index (map fst ms) \<longrightarrow>
        R = map (map_prod id js_value) ms)"
proof -
  let ?ms = "map (map_prod id js_value) ms"
  let ?R = "foldl define_property [] ?ms"
  have keys: "map fst ?ms = map fst ms" by (rule map_prod_keys)
  have a: "js_value (JObject ms) = JObject ?R" by simp
  have b: "distinct (map fst ?R)" by (rule define_all_distinct)
  have c: "set (map fst ?R) = set (map fst ms)"
    using define_all_keys [of ?ms] keys by (metis set_map)
  have d: "\<forall>k. map_of ?R k = map_option js_value (map_of (rev ms) k)"
    by (simp only: define_all_map_of map_prod_map_of) simp
  have e: "sorted_wrt index_first (map fst ?R)" by (rule define_all_index_first)
  have f: "filter (\<lambda>a. \<not> is_array_index a) (map fst ?R) =
       rev (remdups (rev (filter (\<lambda>a. \<not> is_array_index a) (map fst ms))))"
    using define_all_others [of ?ms] by (simp only: keys)
  have g: "distinct (map fst ms) \<and> \<not> list_ex is_array_index (map fst ms) \<longrightarrow> ?R = ?ms"
  proof
    assume h: "distinct (map fst ms) \<and> \<not> list_ex is_array_index (map fst ms)"
    have "foldl define_property [] ?ms = [] @ ?ms"
      using h by (intro define_all_plain) (simp_all add: keys)
    then show "?R = ?ms" by simp
  qed
  from a b c d e f g show ?thesis by blast
qed

section \<open>Claims\<close>

text \<open>
  C1. When the trimmed input is already accepted by the standard parse, the function
  returns that parse's value; the text is not repaired. The result depends on the input
  only through its trimmed form, so padding a text with leading and trailing whitespace
  does not change the result. This holds for any behaviour of the underlying parser.
\<close>

theorem direct_parse_short_circuits:
  "(parse (trim text) = Some v \<longrightarrow> robustParseJSON_with parse text = Inr v) \<and>
   (list_all is_trim_space w1 \<and> list_all is_trim_space w2 \<longrightarrow>
      robustParseJSON_with parse (w1 @ t @ w2) = robustParseJSON_with parse t)"
  by (simp add: robustParseJSON_with_def trim_pad)

theorem direct_parse_short_circuits_witness:
  \<open>JSON_parse (trim (js '' {"a": 1} '')) = Some (JObject [(js ''a'', JNumber (Finite False 1))]) \<and>
   robustParseJSON (js '' {"a": 1} '') = Inr (JObject [(js ''a'', JNumber (Finite False 1))]) \<and>
   list_all is_trim_space (js ''  '') \<and> list_all is_trim_space [0x0A, 0xFEFF] \<and>
   robustParseJSON (js ''  '' @ js ''{"a": 1}'' @ [0x0A, 0xFEFF]) = robustParseJSON (js ''{"a": 1}'')\<close>
proof -
  have h1: \<open>JSON_parse (trim (js '' {"a": 1} '')) = Some (JObject [(js ''a'', JNumber (Finite False 1))])\<close>
    by code_simp
  have h2: "list_all is_trim_space (js ''  '')" "list_all is_trim_space [0x0A, 0xFEFF]"
    by code_simp+
  show ?thesis
    using h1 h2
      direct_parse_short_circuits [of JSON_parse \<open>js '' {"a": 1} ''\<close>
        \<open>JObject [(js ''a'', JNumber (Finite False 1))]\<close> \<open>js ''  ''\<close> "[0x0A, 0xFEFF]" \<open>js ''{"a": 1}''\<close>]
    unfolding robustParseJSON_def by blast
qed

text \<open>
  C7. Outside a string, a closing brace or bracket pops the stack exactly when the stack
  is not empty and its top is that character; otherwise the stack stays as it is. The
  step always yields a state: an unexpected closer is no error. The string flags do not
  change.
\<close>

theorem unexpected_closer_ignored:
  "\<not> inString s \<Longrightarrow> c = rbrace \<or> c = rbracket \<Longrightarrow>
   stack (scan_step s c) =
     (if stack s = [] then stack s
      else if last (stack s) = c then butlast (stack s) else stack s) \<and>
   inString (scan_step s c) = inString s \<and> escaped (scan_step s c) = escaped s"
  by (auto simp: scan_step_def jschar_defs)

theorem unexpected_closer_ignored_witness:
  "stack (scan_step \<lparr>stack = [rbrace], inString = False, escaped = False\<rparr> rbracket) = [rbrace] \<and>
   stack (scan_step \<lparr>stack = [], inString = False, escaped = False\<rparr> rbrace) = [] \<and>
   stack (scan_step \<lparr>stack = [rbrace, rbracket], inString = False, escaped = False\<rparr> rbracket) = [rbrace]"
  using unexpected_closer_ignored [of "\<lparr>stack = [rbrace], inString = False, escaped = False\<rparr>" rbracket]
    unexpected_closer_ignored [of "\<lparr>stack = [], inString = False, escaped = False\<rparr>" rbrace]
    unexpected_closer_ignored [of "\<lparr>stack = [rbrace, rbracket], inString = False, escaped = False\<rparr>" rbracket]
  by (simp add: jschar_defs)

text \<open>
  C3 (as stated, refuted). On \<open>{"a": }\<close> the direct parse fails, the quote count is
  even and the scan leaves the stack empty: the text handed to the final parse is the
  trimmed input itself, which is not a strict prefix of itself.
\<close>

theorem repair_not_strict_prefix_counterexample:
  \<open>JSON_parse (trim (js ''{"a": }'')) = None \<and>
   fixedText (trim (js ''{"a": }'')) = trim (js ''{"a": }'') \<and>
   \<not> strict_prefix (trim (js ''{"a": }'')) (fixedText (trim (js ''{"a": }'')))\<close>
proof -
  have a: \<open>JSON_parse (trim (js ''{"a": }'')) = None\<close> by code_simp
  have b: \<open>fixedText (trim (js ''{"a": }'')) = trim (js ''{"a": }'')\<close> by code_simp
  show ?thesis using a b by simp
qed

text \<open>
  C3 (amended). When the direct parse fails, the final parse is given the repaired text,
  and the repaired text is the trimmed input followed by appended characters only: at
  most one double quote, then closing braces and brackets. The trimmed input is a prefix
  of it, and a strict prefix exactly when the quote count is odd or the scan leaves a
  non-empty stack; otherwise the repaired text is the trimmed input unchanged.
\<close>

theorem repair_appends_only:
  "(parse (trim text) = None \<longrightarrow>
      robustParseJSON_with parse text =
        (case parse (fixedText (trim text)) of Some v \<Rightarrow> Inr v | None \<Rightarrow> Inl MalformedOutput)) \<and>
   prefix (trim text) (fixedText (trim text)) \<and>
   (\<exists>closers. fixedText (trim text) = trim text @ replicate (quoteCount (trim text) mod 2) dquote @ closers
      \<and> list_all (\<lambda>c. c = rbrace \<or> c = rbracket) closers) \<and>
   (strict_prefix (trim text) (fixedText (trim text)) \<longleftrightarrow>
      quoteCount (trim text) mod 2 \<noteq> 0 \<or> stack (scan (patchQuotes (trim text))) \<noteq> [])"
proof -
  let ?t = "trim text"
  let ?cl = "rev (stack (scan (patchQuotes ?t)))"
  have eq: "fixedText ?t = ?t @ replicate (quoteCount ?t mod 2) dquote @ ?cl"
    by (simp add: fixedText_append patchQuotes_replicate)
  have cl: "list_all (\<lambda>c. c = rbrace \<or> c = rbracket) ?cl"
    using scan_stack_closers [of "patchQuotes ?t"] by (simp add: list_all_iff)
  have p: "prefix ?t (fixedText ?t)" by (simp add: eq)
  have s: "strict_prefix ?t (fixedText ?t) \<longleftrightarrow>
      quoteCount ?t mod 2 \<noteq> 0 \<or> stack (scan (patchQuotes ?t)) \<noteq> []"
    by (simp add: strict_prefix_def eq)
  show ?thesis using eq cl p s by (auto simp: robust_fallback)
qed

theorem repair_appends_only_witness:
  \<open>JSON_parse (trim (js '' {"a": ["b'')) = None \<and>
   robustParseJSON (js '' {"a": ["b'') = Inr (JObject [(js ''a'', JArray [JString (js ''b'')])]) \<and>
   fixedText (trim (js '' {"a": ["b'')) = js ''{"a": ["b"]}'' \<and>
   strict_prefix (trim (js '' {"a": ["b'')) (fixedText (trim (js '' {"a": ["b'')))\<close>
proof -
  have a: \<open>JSON_parse (trim (js '' {"a": ["b'')) = None\<close> by code_simp
  have b: \<open>fixedText (trim (js '' {"a": ["b'')) = js ''{"a": ["b"]}''\<close> by code_simp
  have c: \<open>JSON_parse (js ''{"a": ["b"]}'') = Some (JObject [(js ''a'', JArray [JString (js ''b'')])])\<close>
    by code_simp
  have d: \<open>quoteCount (trim (js '' {"a": ["b'')) mod 2 \<noteq> 0\<close> by code_simp
  show ?thesis
    using a b c d repair_appends_only [of JSON_parse \<open>js '' {"a": ["b''\<close>]
    unfolding robustParseJSON_def by simp
qed

text \<open>
  C4. The quote patch appends one double quote when the number of double quotes in the
  text is odd and nothing when it is even; the scan then runs on the patched text, and
  the closers it appends contain no quote. On \<open>{"a": "hello\<close> the repaired text is
  \<open>{"a": "hello"}\<close> and the result is the object with key \<open>a\<close> and value \<open>hello\<close>.
\<close>

theorem odd_quote_count_appends_one_quote:
  \<open>patchQuotes t = t @ replicate (quoteCount t mod 2) dquote \<and>
   length (patchQuotes t) = length t + quoteCount t mod 2 \<and>
   quoteCount (fixedText t) = quoteCount t + quoteCount t mod 2 \<and>
   fixedText (js ''{"a": "hello'') = js ''{"a": "hello"}'' \<and>
   robustParseJSON (js ''{"a": "hello'') = Inr (JObject [(js ''a'', JString (js ''hello''))])\<close>
proof -
  have a: "patchQuotes t = t @ replicate (quoteCount t mod 2) dquote"
    by (rule patchQuotes_replicate)
  have b: "length (patchQuotes t) = length t + quoteCount t mod 2"
    by (simp add: a)
  have "quoteCount (rev (stack (scan (patchQuotes t)))) = 0"
    using scan_stack_closers [of "patchQuotes t"]
    by (intro quoteCount_closers) (simp add: list_all_iff)
  then have c: "quoteCount (fixedText t) = quoteCount t + quoteCount t mod 2"
    by (simp add: fixedText_append quoteCount_append quoteCount_patchQuotes)
  have d: \<open>fixedText (js ''{"a": "hello'') = js ''{"a": "hello"}''\<close>
    by code_simp
  have e: \<open>robustParseJSON (js ''{"a": "hello'') = Inr (JObject [(js ''a'', JString (js ''hello''))])\<close>
    by code_simp
  show ?thesis by (intro conjI a b c d e)
qed

theorem odd_quote_count_appends_one_quote_witness:
  \<open>quoteCount (js ''{"a": "hello'') = 3 \<and>
   patchQuotes (js ''{"a": "hello'') = js ''{"a": "hello'' @ [dquote] \<and>
   quoteCount (js ''{"a": 1'') = 2 \<and>
   patchQuotes (js ''{"a": 1'') = js ''{"a": 1''\<close>
proof -
  have a: \<open>quoteCount (js ''{"a": "hello'') = 3\<close>
    by code_simp
  have b: \<open>quoteCount (js ''{"a": 1'') = 2\<close>
    by code_simp
  have c: \<open>patchQuotes (js ''{"a": "hello'') = js ''{"a": "hello'' @ [dquote]\<close>
    using odd_quote_count_appends_one_quote [of \<open>js ''{"a": "hello''\<close>]
    by (simp only: a) simp
  have d: \<open>patchQuotes (js ''{"a": 1'') = js ''{"a": 1''\<close>
    using odd_quote_count_appends_one_quote [of \<open>js ''{"a": 1''\<close>]
    by (simp only: b) simp
  show ?thesis by (intro conjI a b c d)
qed

text \<open>
  C5. The closers are appended in pop order: the repaired text is the patched text
  followed by the scan's stack read from its top down, so the bracket opened last is
  closed first. On \<open>{"a": [1, 2, {"b": 3\<close> the stack is \<open>}\<close>, \<open>]\<close>, \<open>}\<close> from the bottom,
  the appended characters are \<open>}\<close>, \<open>]\<close>, \<open>}\<close>, and the result is the object whose key
  \<open>a\<close> holds the array of 1, 2 and the object with key \<open>b\<close> and value 3.
\<close>

theorem closers_appended_in_pop_order:
  \<open>fixedText t = patchQuotes t @ rev (stack (scan (patchQuotes t))) \<and>
   closeAll (stk @ [c]) t = closeAll stk (t @ [c]) \<and>
   stack (scan (js ''{"a": [1, 2, {"b": 3'')) = [rbrace, rbracket, rbrace] \<and>
   fixedText (js ''{"a": [1, 2, {"b": 3'') = js ''{"a": [1, 2, {"b": 3'' @ [rbrace, rbracket, rbrace] \<and>
   fixedText (js ''{"a": [1, 2, {"b": 3'') = js ''{"a": [1, 2, {"b": 3}]}'' \<and>
   robustParseJSON (js ''{"a": [1, 2, {"b": 3'') =
     Inr (JObject [(js ''a'', JArray [JNumber (Finite False 1), JNumber (Finite False 2), JObject [(js ''b'', JNumber (Finite False 3))]])])\<close>
proof -
  have a: "fixedText t = patchQuotes t @ rev (stack (scan (patchQuotes t)))"
    by (rule fixedText_append)
  have b: "closeAll (stk @ [c]) t = closeAll stk (t @ [c])"
    by (simp add: closeAll_rev)
  have c: \<open>stack (scan (js ''{"a": [1, 2, {"b": 3'')) = [rbrace, rbracket, rbrace]\<close>
    by code_simp
  have d: \<open>fixedText (js ''{"a": [1, 2, {"b": 3'') = js ''{"a": [1, 2, {"b": 3'' @ [rbrace, rbracket, rbrace]\<close>
    by code_simp
  have e: \<open>fixedText (js ''{"a": [1, 2, {"b": 3'') = js ''{"a": [1, 2, {"b": 3}]}''\<close>
    by code_simp
  have f: \<open>robustParseJSON (js ''{"a": [1, 2, {"b": 3'') =
     Inr (JObject [(js ''a'', JArray [JNumber (Finite False 1), JNumber (Finite False 2), JObject [(js ''b'', JNumber (Finite False 3))]])])\<close>
    by code_simp
  show ?thesis by (intro conjI a b c d e f)
qed

theorem closers_appended_in_pop_order_witness:
  \<open>fixedText (js ''[{"k": [[1'') = js ''[{"k": [[1'' @ [rbracket, rbracket, rbrace, rbracket]\<close>
proof -
  have a: \<open>patchQuotes (js ''[{"k": [[1'') = js ''[{"k": [[1''\<close> by code_simp
  have b: \<open>stack (scan (js ''[{"k": [[1'')) = [rbracket, rbrace, rbracket, rbracket]\<close> by code_simp
  have \<open>fixedText (js ''[{"k": [[1'') =
      patchQuotes (js ''[{"k": [[1'') @ rev (stack (scan (patchQuotes (js ''[{"k": [[1''))))\<close>
    using closers_appended_in_pop_order [of \<open>js ''[{"k": [[1''\<close>] by (rule conjunct1)
  then show ?thesis by (simp only: a b) simp
qed

text \<open>
  C6. When the parse of the trimmed text and the parse of the repaired text both fail,
  the function raises the error with the fixed message. It raises no other error, and
  any value it returns is the complete result of one of the two parses. This holds for
  any behaviour of the underlying parser.
\<close>

theorem failure_is_MalformedOutput:
  "(parse (trim text) = None \<and> parse (fixedText (trim text)) = None \<longrightarrow>
      robustParseJSON_with parse text = Inl MalformedOutput) \<and>
   (robustParseJSON_with parse text = Inl e \<longrightarrow>
      e = MalformedOutput \<and> parse (trim text) = None \<and> parse (fixedText (trim text)) = None) \<and>
   (robustParseJSON_with parse text = Inr v \<longrightarrow>
      parse (trim text) = Some v \<or>
      (parse (trim text) = None \<and> parse (fixedText (trim text)) = Some v))"
proof (cases "parse (trim text)")
  case (Some a)
  then show ?thesis by (simp add: robustParseJSON_with_def Let_def)
next
  case None
  note direct = this
  show ?thesis
  proof (cases "parse (fixedText (trim text))")
    case None
    with direct show ?thesis by (simp add: robustParseJSON_with_def Let_def)
  next
    case (Some b)
    with direct show ?thesis by (simp add: robustParseJSON_with_def Let_def)
  qed
qed

theorem failure_is_MalformedOutput_witness:
  \<open>JSON_parse (trim (js ''{"a": }'')) = None \<and>
   JSON_parse (fixedText (trim (js ''{"a": }''))) = None \<and>
   robustParseJSON (js ''{"a": }'') =
     Inl (Error ''AI response was malformed or truncated due to its length. Please try a more specific query or fewer URLs.'')\<close>
proof -
  have a: \<open>JSON_parse (trim (js ''{"a": }'')) = None\<close> by code_simp
  have b: \<open>JSON_parse (fixedText (trim (js ''{"a": }''))) = None\<close> by code_simp
  have \<open>JSON_parse (trim (js ''{"a": }'')) = None \<and>
        JSON_parse (fixedText (trim (js ''{"a": }''))) = None \<longrightarrow>
        robustParseJSON_with JSON_parse (js ''{"a": }'') = Inl MalformedOutput\<close>
    by (rule conjunct1 [OF failure_is_MalformedOutput])
  with a b have c: \<open>robustParseJSON (js ''{"a": }'') = Inl MalformedOutput\<close>
    unfolding robustParseJSON_def by blast
  show ?thesis
    by (intro conjI a b) (rule c [unfolded MalformedOutput_def])
qed

text \<open>
  C2. The input \<open>{"a": "she said \"hi\<close> contains four double quotes, the escaped one
  included, so the quote patch appends nothing. The scan, which does skip the escaped
  quote, ends inside the string with one open brace; the brace is appended inside the
  open string and the final parse fails. The text the claim expects, with a closing
  quote before the brace, would parse.
\<close>

theorem escaped_quote_input_fails:
  \<open>quoteCount (js ''{"a": "she said '' @ [backslash] @ js ''"hi'') = 4 \<and>
   patchQuotes (js ''{"a": "she said '' @ [backslash] @ js ''"hi'') =
     js ''{"a": "she said '' @ [backslash] @ js ''"hi'' \<and>
   inString (scan (js ''{"a": "she said '' @ [backslash] @ js ''"hi'')) \<and>
   fixedText (js ''{"a": "she said '' @ [backslash] @ js ''"hi'') =
     js ''{"a": "she said '' @ [backslash] @ js ''"hi}'' \<and>
   robustParseJSON (js ''{"a": "she said '' @ [backslash] @ js ''"hi'') = Inl MalformedOutput \<and>
   JSON_parse (js ''{"a": "she said '' @ [backslash] @ js ''"hi"}'') =
     Some (JObject [(js ''a'', JString (js ''she said "hi''))])\<close>
proof -
  have a: \<open>quoteCount (js ''{"a": "she said '' @ [backslash] @ js ''"hi'') = 4\<close>
    by code_simp
  have b: \<open>patchQuotes (js ''{"a": "she said '' @ [backslash] @ js ''"hi'') =
     js ''{"a": "she said '' @ [backslash] @ js ''"hi''\<close>
    by code_simp
  have c: \<open>inString (scan (js ''{"a": "she said '' @ [backslash] @ js ''"hi''))\<close>
    by code_simp
  have d: \<open>fixedText (js ''{"a": "she said '' @ [backslash] @ js ''"hi'') =
     js ''{"a": "she said '' @ [backslash] @ js ''"hi}''\<close>
    by code_simp
  have e: \<open>robustParseJSON (js ''{"a": "she said '' @ [backslash] @ js ''"hi'') = Inl MalformedOutput\<close>
    by code_simp
  have f: \<open>JSON_parse (js ''{"a": "she said '' @ [backslash] @ js ''"hi"}'') =
     Some (JObject [(js ''a'', JString (js ''she said "hi''))])\<close>
    by code_simp
  show ?thesis by (intro conjI a b c d e f)
qed

text \<open>
  C9. On the empty string and on any input made of whitespace only, the trimmed text is
  empty: the direct parse fails, the quote count is zero so no quote is appended, the
  scan leaves the stack empty so no closer is appended, the final parse of the empty
  text fails, and the function raises the malformed-output error.
\<close>

theorem whitespace_only_fails:
  "list_all is_trim_space text \<Longrightarrow>
   trim text = [] \<and> JSON_parse (trim text) = None \<and>
   quoteCount (trim text) = 0 \<and> patchQuotes (trim text) = [] \<and>
   stack (scan (patchQuotes (trim text))) = [] \<and> fixedText (trim text) = [] \<and>
   JSON_parse (fixedText (trim text)) = None \<and>
   robustParseJSON text = Inl MalformedOutput"
proof -
  assume "list_all is_trim_space text"
  then have t: "trim text = []" by (rule trim_all_space)
  have q: "quoteCount [] = 0" by (simp add: quoteCount_def)
  have p: "patchQuotes [] = []" by (simp add: patchQuotes_def q)
  have r: "robustParseJSON text = Inl MalformedOutput"
    by (simp add: robustParseJSON_def robustParseJSON_with_def t JSON_parse_empty fixedText_empty)
  show ?thesis
    unfolding t by (intro conjI refl q p JSON_parse_empty fixedText_empty scan_empty)
      (simp_all only: fixedText_empty JSON_parse_empty r [unfolded t])
qed

theorem whitespace_only_fails_witness:
  "robustParseJSON [] = Inl MalformedOutput \<and>
   robustParseJSON [0x20, 0x0A, 0x09, 0xA0] = Inl MalformedOutput"
proof -
  have a: "list_all is_trim_space []" by simp
  have b: "list_all is_trim_space [0x20, 0x0A, 0x09, 0xA0]" by code_simp
  show ?thesis
    using whitespace_only_fails [OF a] whitespace_only_fails [OF b] by blast
qed

text \<open>
  C10. When the direct parse fails and the scan of the quote-patched text ends inside a
  string, every appended closer lands inside that string: the scan of the repaired text
  still ends inside a string, so the final parse fails and the function raises the
  malformed-output error.
\<close>

theorem open_string_at_end_fails:
  assumes "JSON_parse (trim text) = None"
    and "inString (scan (patchQuotes (trim text)))"
  shows "inString (scan (fixedText (trim text))) \<and>
         JSON_parse (fixedText (trim text)) = None \<and>
         robustParseJSON text = Inl MalformedOutput"
proof -
  let ?p = "patchQuotes (trim text)"
  have cl: "list_all (\<lambda>c. c = rbrace \<or> c = rbracket) (rev (stack (scan ?p)))"
    using scan_stack_closers [of ?p] by (simp add: list_all_iff)
  have i: "inString (scan (fixedText (trim text)))"
    unfolding fixedText_append scan_append using assms(2) cl by (rule closers_keep_inString)
  then have f: "JSON_parse (fixedText (trim text)) = None"
    by (rule inString_parse_fails)
  have r: "robustParseJSON text = Inl MalformedOutput"
    unfolding robustParseJSON_def by (simp add: robust_fallback [where parse = JSON_parse, OF assms(1)] f)
  show ?thesis by (intro conjI i f r)
qed

theorem open_string_at_end_fails_witness:
  \<open>JSON_parse (trim (js ''["x'' @ [backslash] @ js ''"'')) = None \<and>
   inString (scan (patchQuotes (trim (js ''["x'' @ [backslash] @ js ''"'')))) \<and>
   fixedText (trim (js ''["x'' @ [backslash] @ js ''"'')) = js ''["x'' @ [backslash] @ js ''"]'' \<and>
   robustParseJSON (js ''["x'' @ [backslash] @ js ''"'') = Inl MalformedOutput\<close>
proof -
  have a: \<open>JSON_parse (trim (js ''["x'' @ [backslash] @ js ''"'')) = None\<close>
    by code_simp
  have b: \<open>inString (scan (patchQuotes (trim (js ''["x'' @ [backslash] @ js ''"''))))\<close>
    by code_simp
  have c: \<open>fixedText (trim (js ''["x'' @ [backslash] @ js ''"'')) = js ''["x'' @ [backslash] @ js ''"]''\<close>
    by code_simp
  have d: \<open>robustParseJSON (js ''["x'' @ [backslash] @ js ''"'') = Inl MalformedOutput\<close>
    using open_string_at_end_fails [OF a b] by (rule conjunct2 [THEN conjunct2])
  show ?thesis by (intro conjI a b c d)
qed

text \<open>
  C8 (as stated, refuted). On \<open>{"a":1,"a":2}\<close> the text has two members and the result
  has one, with the last value. On \<open>{"b":1,"1":2}\<close> the key \<open>1\<close>, an array index, comes
  first in the result though it is second in the text.
\<close>

theorem key_order_counterexample:
  \<open>JSON_text (js ''{"a":1,"a":2}'') =
     Some (JObject [(js ''a'', JNumber (Finite False 1)), (js ''a'', JNumber (Finite False 2))]) \<and>
   robustParseJSON (js ''{"a":1,"a":2}'') = Inr (JObject [(js ''a'', JNumber (Finite False 2))]) \<and>
   JSON_text (js ''{"b":1,"1":2}'') =
     Some (JObject [(js ''b'', JNumber (Finite False 1)), (js ''1'', JNumber (Finite False 2))]) \<and>
   robustParseJSON (js ''{"b":1,"1":2}'') =
     Inr (JObject [(js ''1'', JNumber (Finite False 2)), (js ''b'', JNumber (Finite False 1))])\<close>
proof -
  have a: \<open>JSON_text (js ''{"a":1,"a":2}'') =
     Some (JObject [(js ''a'', JNumber (Finite False 1)), (js ''a'', JNumber (Finite False 2))])\<close>
    by code_simp
  have b: \<open>robustParseJSON (js ''{"a":1,"a":2}'') = Inr (JObject [(js ''a'', JNumber (Finite False 2))])\<close>
    by code_simp
  have c: \<open>JSON_text (js ''{"b":1,"1":2}'') =
     Some (JObject [(js ''b'', JNumber (Finite False 1)), (js ''1'', JNumber (Finite False 2))])\<close>
    by code_simp
  have d: \<open>robustParseJSON (js ''{"b":1,"1":2}'') =
     Inr (JObject [(js ''1'', JNumber (Finite False 2)), (js ''b'', JNumber (Finite False 1))])\<close>
    by code_simp
  show ?thesis by (intro conjI a b c d)
qed

text \<open>
  C8 (amended). A returned value is the ECMAScript value of a syntax tree whose tokens,
  in order, are exactly the tokens of the text that parsed: the trimmed input, followed
  by the appended quote and closers when the direct parse failed. The function changes
  nothing in that value. An array of the tree keeps its elements in their order. For an
  object of the tree, at any depth, with members \<open>ms\<close> in the order of the text, the
  members \<open>R\<close> of the value have each key of \<open>ms\<close> once, with the value of its last
  occurrence; the array-index keys come first in ascending order, and the other keys
  follow in the order of their first occurrence. When the keys of \<open>ms\<close> are pairwise
  distinct and none is an array index, \<open>R\<close> is \<open>ms\<close> member by member, in the order of
  the text.
\<close>

theorem parse_result_key_order:
  "robustParseJSON text = Inr v \<Longrightarrow>
   (\<exists>suffix tree.
      list_all (\<lambda>c. c = dquote \<or> c = rbrace \<or> c = rbracket) suffix \<and>
      (suffix = [] \<or> (JSON_parse (trim text) = None \<and> trim text @ suffix = fixedText (trim text))) \<and>
      lex (trim text @ suffix) = Some (tokens_of tree) \<and> v = js_value tree) \<and>
   js_value (JArray es) = JArray (map js_value es) \<and>
   (\<exists>R. js_value (JObject ms) = JObject R \<and>
      distinct (map fst R) \<and> set (map fst R) = set (map fst ms) \<and>
      (\<forall>k. map_of R k = map_option js_value (map_of (rev ms) k)) \<and>
      sorted_wrt index_first (map fst R) \<and>
      filter (\<lambda>a. \<not> is_array_index a) (map fst R) =
        rev (remdups (rev (filter (\<lambda>a. \<not> is_array_index a) (map fst ms)))) \<and>
      (distinct (map fst ms) \<and> \<not> list_ex is_array_index (map fst ms) \<longrightarrow>
         R = map (map_prod id js_value) ms))"
proof -
  assume r: "robustParseJSON text = Inr v"
  have a: "js_value (JArray es) = JArray (map js_value es)" by simp
  show ?thesis
    by (intro conjI robust_result_tokens [OF r] a js_value_object)
qed

theorem parse_result_key_order_witness:
  \<open>robustParseJSON (js ''{"b":1,"10":2,"a":[3,4],"b":5,"9":6'') =
     Inr (JObject [(js ''9'', JNumber (Finite False 6)), (js ''10'', JNumber (Finite False 2)),
                   (js ''b'', JNumber (Finite False 5)),
                   (js ''a'', JArray [JNumber (Finite False 3), JNumber (Finite False 4)])]) \<and>
   lex (fixedText (trim (js ''{"b":1,"10":2,"a":[3,4],"b":5,"9":6''))) =
     Some (tokens_of
       (JObject [(js ''b'', JNumber (Finite False 1)), (js ''10'', JNumber (Finite False 2)),
                 (js ''a'', JArray [JNumber (Finite False 3), JNumber (Finite False 4)]),
                 (js ''b'', JNumber (Finite False 5)), (js ''9'', JNumber (Finite False 6))])) \<and>
   sorted_wrt index_first [js ''9'', js ''10'', js ''b'', js ''a''] \<and>
   filter (\<lambda>a. \<not> is_array_index a) [js ''9'', js ''10'', js ''b'', js ''a''] = [js ''b'', js ''a'']\<close>
proof -
  let ?ms = \<open>[(js ''b'', JNumber (Finite False 1)), (js ''10'', JNumber (Finite False 2)),
             (js ''a'', JArray [JNumber (Finite False 3), JNumber (Finite False 4)]),
             (js ''b'', JNumber (Finite False 5)), (js ''9'', JNumber (Finite False 6))]\<close>
  let ?R = \<open>[(js ''9'', JNumber (Finite False 6)), (js ''10'', JNumber (Finite False 2)),
            (js ''b'', JNumber (Finite False 5)),
            (js ''a'', JArray [JNumber (Finite False 3), JNumber (Finite False 4)])]\<close>
  have r: \<open>robustParseJSON (js ''{"b":1,"10":2,"a":[3,4],"b":5,"9":6'') = Inr (JObject ?R)\<close>
    by code_simp
  have l: \<open>lex (fixedText (trim (js ''{"b":1,"10":2,"a":[3,4],"b":5,"9":6''))) =
      Some (tokens_of (JObject ?ms))\<close>
    by code_simp
  have j: "js_value (JObject ?ms) = JObject ?R"
    by code_simp
  have o: "rev (remdups (rev (filter (\<lambda>a. \<not> is_array_index a) (map fst ?ms)))) = [js ''b'', js ''a'']"
    by code_simp
  have k: "map fst ?R = [js ''9'', js ''10'', js ''b'', js ''a'']"
    by simp
  from parse_result_key_order [OF r, of "[]" ?ms] obtain R where
    R: "js_value (JObject ?ms) = JObject R"
    and s: "sorted_wrt index_first (map fst R)"
    and f: "filter (\<lambda>a. \<not> is_array_index a) (map fst R) =
        rev (remdups (rev (filter (\<lambda>a. \<not> is_array_index a) (map fst ?ms))))"
    by blast
  from R j have "R = ?R" by (simp only: json.inject)
  with s f have s': "sorted_wrt index_first (map fst ?R)"
    and f': "filter (\<lambda>a. \<not> is_array_index a) (map fst ?R) =
        rev (remdups (rev (filter (\<lambda>a. \<not> is_array_index a) (map fst ?ms))))"
    by simp_all
  from s' have s'': "sorted_wrt index_first [js ''9'', js ''10'', js ''b'', js ''a'']"
    by (simp only: k)
  from f' have f'': "filter (\<lambda>a. \<not> is_array_index a) [js ''9'', js ''10'', js ''b'', js ''a''] =
      [js ''b'', js ''a'']"
    by (simp only: k o)
  show ?thesis by (intro conjI r l s'' f'')
qed

end
